theory Spec2Isabelle
  imports Main "HOL-Library.AList"
begin

section \<open>The trace source: \<^verbatim>\<open>get_struct_logs_from_file\<close>\<close>

text \<open>
  \<^verbatim>\<open>json.load\<close> hands the function an arbitrary decoded JSON value. A decoded object is a
  Python dict: here an association list read with \<open>map_of\<close>. Opening the file and decoding
  it happen before the code modelled here and are not part of the model.
\<close>

datatype json =
    JNull
  | JBool bool
  | JNumber int
  | JString string
  | JArray "json list"
  | JObject "(string \<times> json) list"

datatype py_error = KeyError | TypeError

text \<open>Python's \<^verbatim>\<open>needle in haystack\<close> on two strings: the substring test.\<close>

fun is_substring :: "string \<Rightarrow> string \<Rightarrow> bool" where
  "is_substring k [] = (k = [])"
| "is_substring k (c # s) = (take (length k) (c # s) = k \<or> is_substring k s)"

text \<open>
  \<^verbatim>\<open>key in data\<close> for a string \<^verbatim>\<open>key\<close>: key membership on a dict, element membership on a
  list, the substring test on a string, and \<^verbatim>\<open>TypeError\<close> (argument is not iterable) on
  \<^verbatim>\<open>None\<close>, a bool or a number.
\<close>

fun py_contains :: "json \<Rightarrow> string \<Rightarrow> py_error + bool" where
  "py_contains (JObject kvs) k = Inr (k \<in> set (map fst kvs))"
| "py_contains (JArray xs) k = Inr (JString k \<in> set xs)"
| "py_contains (JString s) k = Inr (is_substring k s)"
| "py_contains JNull k = Inl TypeError"
| "py_contains (JBool b) k = Inl TypeError"
| "py_contains (JNumber n) k = Inl TypeError"

text \<open>
  \<^verbatim>\<open>data[key]\<close> for a string \<^verbatim>\<open>key\<close>: the value or \<^verbatim>\<open>KeyError\<close> on a dict, \<^verbatim>\<open>TypeError\<close> on
  everything else (a list or string wants an integer index, the rest is not
  subscriptable).
\<close>

fun py_getitem :: "json \<Rightarrow> string \<Rightarrow> py_error + json" where
  "py_getitem (JObject kvs) k = (case map_of kvs k of None \<Rightarrow> Inl KeyError | Some v \<Rightarrow> Inr v)"
| "py_getitem (JArray xs) k = Inl TypeError"
| "py_getitem (JString s) k = Inl TypeError"
| "py_getitem JNull k = Inl TypeError"
| "py_getitem (JBool b) k = Inl TypeError"
| "py_getitem (JNumber n) k = Inl TypeError"

text \<open>Sequencing of computations that may raise.\<close>

fun and_then :: "'e + 'a \<Rightarrow> ('a \<Rightarrow> 'e + 'b) \<Rightarrow> 'e + 'b" where
  "and_then (Inl e) f = Inl e"
| "and_then (Inr x) f = f x"

text \<open>
  The condition \<^verbatim>\<open>'result' in data and 'structLogs' in data['result']\<close>; \<^verbatim>\<open>and\<close>
  evaluates its right operand only when the left one is true.
\<close>

definition has_result_struct_logs :: "json \<Rightarrow> py_error + bool" where
  "has_result_struct_logs data =
     and_then (py_contains data ''result'') (\<lambda>has_result.
       if has_result
       then and_then (py_getitem data ''result'') (\<lambda>r. py_contains r ''structLogs'')
       else Inr False)"

definition get_struct_logs :: "json \<Rightarrow> py_error + json" where
  "get_struct_logs data =
     and_then (has_result_struct_logs data) (\<lambda>nested.
       if nested
       then and_then (py_getitem data ''result'') (\<lambda>r. py_getitem r ''structLogs'')
       else and_then (py_contains data ''structLogs'') (\<lambda>direct.
         if direct then py_getitem data ''structLogs'' else Inl KeyError))"

section \<open>The call-gas attribution engine: \<^verbatim>\<open>parse_struct_logs\<close>\<close>

text \<open>
  A step record of the trace, already decoded, with the five fields the loop reads.
  Python integers are unbounded, hence \<open>int\<close>.
\<close>

record step =
  pc :: int
  depth :: int
  op :: string
  gas :: int
  gasCost :: int

text \<open>
  The \<^verbatim>\<open>call_info\<close> dict. The keys \<^verbatim>\<open>gas_used\<close>, \<^verbatim>\<open>return_pc\<close> and \<^verbatim>\<open>return_depth\<close> are absent
  until a return step is matched.
\<close>

record call_info =
  call_pc :: int
  call_depth :: int
  gas_at_call :: int
  call_op :: string
  gas_used :: "int option"
  return_pc :: "int option"
  return_depth :: "int option"

type_synonym call_key = "int \<times> int"

text \<open>
  The local variables of \<^verbatim>\<open>parse_struct_logs\<close>. The dict \<^verbatim>\<open>call_stack\<close> is an association
  list in Python's insertion order: \<open>AList.update\<close> overwrites a present key in place and
  appends an absent one, \<open>AList.delete\<close> removes a key.
\<close>

record scan_state =
  call_stack :: "(call_key \<times> call_info) list"
  active_calls :: "call_key list"
  gas_sum :: int
  gas_start :: int
  gas_end :: int
  monitor :: bool

definition stack_increasers :: "string list" where
  "stack_increasers =
     [''CALL'', ''CALLCODE'', ''DELEGATECALL'', ''STATICCALL'', ''CREATE'', ''CREATE2'']"

definition initial_state :: scan_state where
  "initial_state =
     \<lparr>call_stack = [], active_calls = [], gas_sum = 0, gas_start = 0, gas_end = 0,
      monitor = False\<rparr>"

text \<open>What a matched return step writes into the popped \<^verbatim>\<open>call_info\<close>.\<close>

definition finalize :: "step \<Rightarrow> call_info \<Rightarrow> call_info" where
  "finalize log ci =
     ci\<lparr>gas_used := Some (gas_at_call ci - gas log),
        return_pc := Some (pc log),
        return_depth := Some (depth log)\<rparr>"

text \<open>
  The inner loop \<^verbatim>\<open>for call_key in active_calls\<close>, whose body removes from the list it
  iterates. Python's list iterator holds an index \<open>i\<close>: each round reads
  \<^verbatim>\<open>active_calls[i]\<close> from the list as it is now and advances \<open>i\<close>, and stops once \<open>i\<close>
  reaches the current length. \<^verbatim>\<open>remove\<close> deletes the first equal element, \<^verbatim>\<open>pop\<close> raises
  \<^verbatim>\<open>KeyError\<close> on an absent key, and the assignment after \<^verbatim>\<open>pop\<close> puts the key back at the
  end of the dict.
\<close>

function return_loop :: "step \<Rightarrow> nat \<Rightarrow> scan_state \<Rightarrow> py_error + scan_state" where
  "return_loop log i s =
     (if i < length (active_calls s) then
        (if pc log = fst (active_calls s ! i) + 1 then
           (case map_of (call_stack s) (active_calls s ! i) of
              None \<Rightarrow> Inl KeyError
            | Some ci \<Rightarrow>
                return_loop log (i + 1)
                  (s\<lparr>call_stack :=
                       AList.update (active_calls s ! i) (finalize log ci)
                         (AList.delete (active_calls s ! i) (call_stack s)),
                     active_calls := remove1 (active_calls s ! i) (active_calls s)\<rparr>))
         else return_loop log (i + 1) s)
      else Inr s)"
  by pat_completeness auto
termination
  by (relation "measure (\<lambda>(log, i, s). length (active_calls s) - i)")
     (auto simp: length_remove1)

declare return_loop.simps [simp del]

text \<open>How one round of the outer loop ends.\<close>

datatype flow = Continue | Break

text \<open>The body of \<^verbatim>\<open>for log in struct_logs\<close>.\<close>

definition loop_body ::
  "int \<Rightarrow> int \<Rightarrow> scan_state \<Rightarrow> step \<Rightarrow> py_error + (flow \<times> scan_state)" where
  "loop_body start_pc mdepth s log =
     (if pc log = start_pc \<and> depth log = mdepth then
        Inr (Continue, s\<lparr>monitor := True, gas_start := gas log\<rparr>)
      else if pc log = start_pc + 1 \<and> depth log = mdepth then
        Inr (Break, s\<lparr>monitor := False, gas_end := gas log\<rparr>)
      else if monitor s then
        (if depth log \<noteq> mdepth + 1 then Inr (Continue, s)
         else if op log \<in> set stack_increasers then
           Inr (Continue,
             s\<lparr>call_stack :=
                 AList.update (pc log, depth log)
                   \<lparr>call_pc = pc log, call_depth = depth log, gas_at_call = gas log,
                    call_op = op log, gas_used = None, return_pc = None,
                    return_depth = None\<rparr>
                   (call_stack s),
               active_calls := active_calls s @ [(pc log, depth log)]\<rparr>)
         else
           and_then (return_loop log 0 (s\<lparr>gas_sum := gas_sum s + gasCost log\<rparr>))
             (\<lambda>s'. Inr (Continue, s')))
      else Inr (Continue, s))"

text \<open>The outer loop: \<open>Break\<close> leaves it, an exception propagates.\<close>

fun scan :: "int \<Rightarrow> int \<Rightarrow> scan_state \<Rightarrow> step list \<Rightarrow> py_error + scan_state" where
  "scan start_pc mdepth s [] = Inr s"
| "scan start_pc mdepth s (log # logs) =
     (case loop_body start_pc mdepth s log of
        Inl e \<Rightarrow> Inl e
      | Inr (Break, s') \<Rightarrow> Inr s'
      | Inr (Continue, s') \<Rightarrow> scan start_pc mdepth s' logs)"

text \<open>The loop after the scan: \<^verbatim>\<open>gas_used\<close> of every entry that has one is added.\<close>

fun add_completed :: "int \<Rightarrow> (call_key \<times> call_info) list \<Rightarrow> int" where
  "add_completed acc [] = acc"
| "add_completed acc (kv # rest) =
     add_completed (case gas_used (snd kv) of None \<Rightarrow> acc | Some g \<Rightarrow> acc + g) rest"

text \<open>The returned dict.\<close>

record results =
  res_gas_sum :: int
  res_gas_start :: int
  res_gas_end :: int
  res_call_stack :: "(call_key \<times> call_info) list"

definition parse_struct_logs :: "int \<Rightarrow> int \<Rightarrow> step list \<Rightarrow> py_error + results" where
  "parse_struct_logs start_pc mdepth struct_logs =
     and_then (scan start_pc mdepth initial_state struct_logs) (\<lambda>s.
       Inr \<lparr>res_gas_sum = add_completed (gas_sum s) (call_stack s),
            res_gas_start = gas_start s,
            res_gas_end = gas_end s,
            res_call_stack = call_stack s\<rparr>)"

text \<open>The figures \<^verbatim>\<open>print_results\<close> derives from the returned dict.\<close>

definition gas_total :: "results \<Rightarrow> int" where
  "gas_total r = res_gas_start r - res_gas_end r"

definition non_execution_gas :: "results \<Rightarrow> int" where
  "non_execution_gas r = gas_total r - res_gas_sum r"

section \<open>Notions used in the statements\<close>

text \<open>
  The two marker tests of the loop body, and the facts about the frame table that every
  state of a scan satisfies: its keys are pairwise different, every key of the active
  list has a descriptor, and every key sits one level below the monitored depth.
\<close>

definition start_marker :: "int \<Rightarrow> int \<Rightarrow> step \<Rightarrow> bool" where
  "start_marker start_pc mdepth log \<longleftrightarrow> pc log = start_pc \<and> depth log = mdepth"

definition end_marker :: "int \<Rightarrow> int \<Rightarrow> step \<Rightarrow> bool" where
  "end_marker start_pc mdepth log \<longleftrightarrow> pc log = start_pc + 1 \<and> depth log = mdepth"

definition frames_ok :: "int \<Rightarrow> scan_state \<Rightarrow> bool" where
  "frames_ok mdepth s \<longleftrightarrow>
     distinct (map fst (call_stack s)) \<and>
     set (active_calls s) \<subseteq> fst ` set (call_stack s) \<and>
     list_all (\<lambda>k. snd k = mdepth + 1) (map fst (call_stack s))"

text \<open>
  The steps inside the monitoring window: those from the first start marker that the scan
  reaches up to the first end marker. The list holds the start markers themselves; they
  are at the monitored depth, so they are not among the steps one level below.
\<close>

definition monitored_steps :: "int \<Rightarrow> int \<Rightarrow> step list \<Rightarrow> step list" where
  "monitored_steps start_pc mdepth logs =
     dropWhile (\<lambda>l. \<not> start_marker start_pc mdepth l)
       (takeWhile (\<lambda>l. \<not> end_marker start_pc mdepth l) logs)"

definition child_steps :: "int \<Rightarrow> int \<Rightarrow> step list \<Rightarrow> step list" where
  "child_steps start_pc mdepth logs =
     filter (\<lambda>l. depth l = mdepth + 1) (monitored_steps start_pc mdepth logs)"

text \<open>The gas costs of the steps that are no call-family steps, summed.\<close>

definition plain_gas :: "step list \<Rightarrow> int" where
  "plain_gas steps = sum_list (map gasCost (filter (\<lambda>l. op l \<notin> set stack_increasers) steps))"

text \<open>The \<^verbatim>\<open>gas_used\<close> of the descriptors that have one, summed.\<close>

definition finalized_gas :: "(call_key \<times> call_info) list \<Rightarrow> int" where
  "finalized_gas frames =
     sum_list (map (\<lambda>kv. case gas_used (snd kv) of None \<Rightarrow> 0 | Some g \<Rightarrow> g) frames)"

text \<open>
  The execution gas in the words of the specification, not of the code: every
  call-family step among the steps one level below opens a frame of its own; the frame is
  closed by the first later step there that is no call-family step and stands at the
  call's program counter plus one, and has then used the gas at the call minus the gas at
  that step; a frame that is never closed counts nothing.
\<close>

fun completed_frames_gas :: "step list \<Rightarrow> int" where
  "completed_frames_gas [] = 0"
| "completed_frames_gas (c # rest) =
     (if op c \<in> set stack_increasers
      then (case find (\<lambda>r. op r \<notin> set stack_increasers \<and> pc r = pc c + 1) rest of
              None \<Rightarrow> 0
            | Some r \<Rightarrow> gas c - gas r)
      else 0)
     + completed_frames_gas rest"

definition claimed_gas_sum :: "int \<Rightarrow> int \<Rightarrow> step list \<Rightarrow> int" where
  "claimed_gas_sum start_pc mdepth logs =
     plain_gas (child_steps start_pc mdepth logs)
     + completed_frames_gas (child_steps start_pc mdepth logs)"

text \<open>
  A step that the loop body, in state \<open>s\<close>, pushes as a call at a key that is still in the
  active list: a call-family step one level below the monitored depth, met while
  monitoring, whose key \<open>(pc, depth)\<close> is active.
\<close>

definition reopens_active_key :: "int \<Rightarrow> scan_state \<Rightarrow> step \<Rightarrow> bool" where
  "reopens_active_key mdepth s log \<longleftrightarrow>
     monitor s \<and> depth log = mdepth + 1 \<and> op log \<in> set stack_increasers \<and>
     (pc log, depth log) \<in> set (active_calls s)"

section \<open>Auxiliary facts\<close>

subsection \<open>The inner loop\<close>

text \<open>
  Every property of the inner loop that is kept by one removal is kept by the loop: the
  rule below is the induction over its run, done once.
\<close>

lemma return_loop_invariant:
  assumes "return_loop log i s = Inr s'"
    and "Q s"
    and "\<And>t k ci. Q t \<Longrightarrow> k \<in> set (active_calls t) \<Longrightarrow> pc log = fst k + 1 \<Longrightarrow>
           map_of (call_stack t) k = Some ci \<Longrightarrow>
           Q (t\<lparr>call_stack := AList.update k (finalize log ci) (AList.delete k (call_stack t)),
                active_calls := remove1 k (active_calls t)\<rparr>)"
  shows "Q s'"
  using assms
proof (induction log i s rule: return_loop.induct)
  case (1 log i s)
  show ?case
  proof (cases "i < length (active_calls s)")
    case False
    with "1.prems" show ?thesis by (simp add: return_loop.simps [of log i s])
  next
    case len: True
    show ?thesis
    proof (cases "pc log = fst (active_calls s ! i) + 1")
      case False
      with len "1.prems" have "return_loop log (i + 1) s = Inr s'"
        by (simp add: return_loop.simps [of log i s])
      from "1.IH"(2) [OF len False this "1.prems"(2,3)] show ?thesis .
    next
      case hit: True
      show ?thesis
      proof (cases "map_of (call_stack s) (active_calls s ! i)")
        case None
        with len hit "1.prems" show ?thesis by (simp add: return_loop.simps [of log i s])
      next
        case (Some ci)
        let ?t = "s\<lparr>call_stack := AList.update (active_calls s ! i) (finalize log ci)
                      (AList.delete (active_calls s ! i) (call_stack s)),
                    active_calls := remove1 (active_calls s ! i) (active_calls s)\<rparr>"
        from len hit Some "1.prems" have run: "return_loop log (i + 1) ?t = Inr s'"
          by (simp add: return_loop.simps [of log i s])
        have "Q ?t"
          using "1.prems"(3) [OF "1.prems"(2) _ hit Some] len by simp
        from "1.IH"(1) [OF len hit Some run this "1.prems"(3)] show ?thesis .
      qed
    qed
  qed
qed

lemma return_loop_fields:
  assumes "return_loop log i s = Inr s'"
  shows "gas_sum s' = gas_sum s \<and> gas_start s' = gas_start s \<and> gas_end s' = gas_end s
     \<and> monitor s' = monitor s"
  by (rule return_loop_invariant [OF assms,
        where Q = "\<lambda>t. gas_sum t = gas_sum s \<and> gas_start t = gas_start s \<and> gas_end t = gas_end s
           \<and> monitor t = monitor s"]) simp_all


lemma return_loop_distinct_active:
  assumes "return_loop log i s = Inr s'" and "distinct (active_calls s)"
  shows "distinct (active_calls s')"
  by (rule return_loop_invariant [OF assms(1), where Q = "\<lambda>t. distinct (active_calls t)"])
     (simp_all add: assms(2))

lemma finalize_idem: "finalize log (finalize log ci) = finalize log ci"
  by (simp add: finalize_def)

lemma map_of_pop_reinsert:
  "map_of (AList.update k v (AList.delete k al)) = (map_of al)(k \<mapsto> v)"
  by (simp add: update_conv' delete_conv')

lemma return_loop_entry:
  assumes "return_loop log i s = Inr s'"
  shows "map_of (call_stack s') k = map_of (call_stack s) k \<or>
         (pc log = fst k + 1 \<and> k \<in> set (active_calls s) \<and>
          map_of (call_stack s') k = map_option (finalize log) (map_of (call_stack s) k))"
proof -
  let ?Q = "\<lambda>t. set (active_calls t) \<subseteq> set (active_calls s) \<and>
      (map_of (call_stack t) k = map_of (call_stack s) k \<or>
       (pc log = fst k + 1 \<and> k \<in> set (active_calls s) \<and>
        map_of (call_stack t) k = map_option (finalize log) (map_of (call_stack s) k)))"
  have "?Q s'"
  proof (rule return_loop_invariant [OF assms, where Q = ?Q])
    show "?Q s" by simp
  next
    fix t k' ci
    assume Q: "?Q t" and act: "k' \<in> set (active_calls t)" and hit: "pc log = fst k' + 1"
      and ci: "map_of (call_stack t) k' = Some ci"
    let ?u = "t\<lparr>call_stack := AList.update k' (finalize log ci) (AList.delete k' (call_stack t)),
                active_calls := remove1 k' (active_calls t)\<rparr>"
    have sub: "set (active_calls ?u) \<subseteq> set (active_calls s)"
    proof -
      have "set (active_calls ?u) \<subseteq> set (active_calls t)"
        by (simp add: set_remove1_subset)
      then show ?thesis using Q by (meson order_trans)
    qed
    show "?Q ?u"
    proof (cases "k = k'")
      case False
      then have "map_of (call_stack ?u) k = map_of (call_stack t) k"
        by (simp add: map_of_pop_reinsert)
      with Q sub show ?thesis by simp
    next
      case same: True
      have new: "map_of (call_stack ?u) k = Some (finalize log ci)"
        using same by (simp add: map_of_pop_reinsert)
      have k_act: "k \<in> set (active_calls s)"
        using act Q same by auto
      from Q have "map_of (call_stack t) k = map_of (call_stack s) k \<or>
          map_of (call_stack t) k = map_option (finalize log) (map_of (call_stack s) k)"
        by blast
      then have "Some (finalize log ci) = map_option (finalize log) (map_of (call_stack s) k)"
      proof
        assume "map_of (call_stack t) k = map_of (call_stack s) k"
        with ci same have "map_of (call_stack s) k = Some ci" by simp
        then show ?thesis by simp
      next
        assume "map_of (call_stack t) k = map_option (finalize log) (map_of (call_stack s) k)"
        with ci same obtain c0 where "map_of (call_stack s) k = Some c0" "ci = finalize log c0"
          by (cases "map_of (call_stack s) k") auto
        then show ?thesis by (simp add: finalize_idem)
      qed
      with new hit same k_act sub show ?thesis by simp
    qed
  qed
  then show ?thesis by simp
qed


text \<open>
  \<^verbatim>\<open>pop\<close> never raises: a key of the active list always has its descriptor.
\<close>

lemma keys_pop_reinsert:
  "k \<in> fst ` set al \<Longrightarrow> fst ` set (AList.update k v (AList.delete k al)) = fst ` set al"
proof -
  assume "k \<in> fst ` set al"
  moreover have "fst ` set (AList.delete k al) = fst ` set al - {k}"
    using delete_keys [of k al] by (metis list.set_map set_removeAll)
  ultimately show ?thesis by (auto simp: dom_update)
qed

lemma frames_ok_finalize:
  assumes "frames_ok d t" and "k \<in> set (active_calls t)"
  shows "frames_ok d (t\<lparr>call_stack := AList.update k v (AList.delete k (call_stack t)),
                         active_calls := remove1 k (active_calls t)\<rparr>)"
proof -
  from assms have k: "k \<in> fst ` set (call_stack t)"
    by (auto simp: frames_ok_def)
  have keys: "fst ` set (AList.update k v (AList.delete k (call_stack t))) = fst ` set (call_stack t)"
    by (rule keys_pop_reinsert [OF k])
  have "distinct (map fst (AList.update k v (AList.delete k (call_stack t))))"
    using assms(1) by (simp add: frames_ok_def distinct_update distinct_delete)
  moreover have "set (remove1 k (active_calls t)) \<subseteq> fst ` set (call_stack t)"
    using assms(1) set_remove1_subset [of k "active_calls t"] by (auto simp: frames_ok_def)
  moreover have "list_all (\<lambda>k. snd k = d + 1) (map fst (AList.update k v (AList.delete k (call_stack t))))"
  proof -
    have "\<forall>x \<in> fst ` set (call_stack t). snd x = d + 1"
      using assms(1) by (auto simp: frames_ok_def list_all_iff)
    then show ?thesis unfolding list_all_iff set_map keys .
  qed
  ultimately show ?thesis by (simp add: frames_ok_def keys)
qed

lemma return_loop_frames_ok:
  "return_loop log i s = Inr s' \<Longrightarrow> frames_ok d s \<Longrightarrow> frames_ok d s'"
  by (erule return_loop_invariant [where Q = "frames_ok d"]) (auto intro: frames_ok_finalize)

lemma return_loop_returns:
  "set (active_calls s) \<subseteq> fst ` set (call_stack s) \<Longrightarrow> \<exists>s'. return_loop log i s = Inr s'"
proof (induction log i s rule: return_loop.induct)
  case (1 log i s)
  show ?case
  proof (cases "i < length (active_calls s)")
    case False
    then show ?thesis by (simp add: return_loop.simps [of log i s])
  next
    case len: True
    show ?thesis
    proof (cases "pc log = fst (active_calls s ! i) + 1")
      case False
      with len "1.IH"(2) "1.prems" show ?thesis by (simp add: return_loop.simps [of log i s])
    next
      case hit: True
      from len "1.prems" have key: "active_calls s ! i \<in> fst ` set (call_stack s)"
        using nth_mem by blast
      then obtain ci where ci: "map_of (call_stack s) (active_calls s ! i) = Some ci"
        by (metis map_of_eq_None_iff not_Some_eq)
      let ?k = "active_calls s ! i"
      let ?t = "s\<lparr>call_stack := AList.update ?k (finalize log ci) (AList.delete ?k (call_stack s)),
                  active_calls := remove1 ?k (active_calls s)\<rparr>"
      have keys: "fst ` set (call_stack ?t) = fst ` set (call_stack s)"
        using keys_pop_reinsert [OF key, of "finalize log ci"] by simp
      have "set (active_calls ?t) \<subseteq> set (active_calls s)"
        by (simp add: set_remove1_subset)
      then have "set (active_calls ?t) \<subseteq> fst ` set (call_stack s)"
        using "1.prems" by (rule order_trans)
      then have "set (active_calls ?t) \<subseteq> fst ` set (call_stack ?t)"
        by (simp only: keys)
      from "1.IH"(1) [OF len hit ci this] len hit ci show ?thesis
        by (simp add: return_loop.simps [of log i s])
    qed
  qed
qed

subsection \<open>One round of the outer loop\<close>

lemma end_not_start: "end_marker P D log \<Longrightarrow> \<not> start_marker P D log"
  by (simp add: start_marker_def end_marker_def)

lemma loop_body_start:
  "start_marker P D log \<Longrightarrow>
     loop_body P D s log = Inr (Continue, s\<lparr>monitor := True, gas_start := gas log\<rparr>)"
  by (simp add: loop_body_def start_marker_def)

lemma loop_body_end:
  "end_marker P D log \<Longrightarrow>
     loop_body P D s log = Inr (Break, s\<lparr>monitor := False, gas_end := gas log\<rparr>)"
  by (simp add: loop_body_def end_marker_def)

lemma loop_body_idle:
  "\<not> start_marker P D log \<Longrightarrow> \<not> end_marker P D log \<Longrightarrow> \<not> monitor s \<Longrightarrow>
     loop_body P D s log = Inr (Continue, s)"
  by (auto simp: loop_body_def start_marker_def end_marker_def)

lemma loop_body_other_depth:
  "\<not> start_marker P D log \<Longrightarrow> \<not> end_marker P D log \<Longrightarrow> depth log \<noteq> D + 1 \<Longrightarrow>
     loop_body P D s log = Inr (Continue, s)"
  by (auto simp: loop_body_def start_marker_def end_marker_def)

lemma loop_body_skip:
  "\<not> start_marker P D log \<Longrightarrow> \<not> end_marker P D log \<Longrightarrow> \<not> monitor s \<or> depth log \<noteq> D + 1 \<Longrightarrow>
     loop_body P D s log = Inr (Continue, s)"
  using loop_body_idle loop_body_other_depth by blast

lemma loop_body_call:
  "monitor s \<Longrightarrow> depth log = D + 1 \<Longrightarrow> op log \<in> set stack_increasers \<Longrightarrow>
     loop_body P D s log =
       Inr (Continue,
         s\<lparr>call_stack :=
             AList.update (pc log, depth log)
               \<lparr>call_pc = pc log, call_depth = depth log, gas_at_call = gas log,
                call_op = op log, gas_used = None, return_pc = None, return_depth = None\<rparr>
               (call_stack s),
           active_calls := active_calls s @ [(pc log, depth log)]\<rparr>)"
  by (simp add: loop_body_def)

lemma loop_body_plain:
  "monitor s \<Longrightarrow> depth log = D + 1 \<Longrightarrow> op log \<notin> set stack_increasers \<Longrightarrow>
     loop_body P D s log =
       and_then (return_loop log 0 (s\<lparr>gas_sum := gas_sum s + gasCost log\<rparr>))
         (\<lambda>s'. Inr (Continue, s'))"
  by (simp add: loop_body_def)

lemma loop_body_cases:
  obtains (start) "start_marker P D log"
  | (stop) "\<not> start_marker P D log" "end_marker P D log"
  | (skip) "\<not> start_marker P D log" "\<not> end_marker P D log" "\<not> monitor s \<or> depth log \<noteq> D + 1"
  | (call) "monitor s" "depth log = D + 1" "op log \<in> set stack_increasers"
  | (plain) "monitor s" "depth log = D + 1" "op log \<notin> set stack_increasers"
  by (auto simp: start_marker_def end_marker_def)

lemma loop_body_window_fields:
  assumes "loop_body P D s log = Inr (fl, t)"
  shows "gas_start t = (if start_marker P D log then gas log else gas_start s)"
    and "gas_end t = (if end_marker P D log then gas log else gas_end s)"
    and "monitor t = (if start_marker P D log then True
                      else if end_marker P D log then False else monitor s)"
    and "fl = (if end_marker P D log then Break else Continue)"
proof -
  have "gas_start t = (if start_marker P D log then gas log else gas_start s) \<and>
        gas_end t = (if end_marker P D log then gas log else gas_end s) \<and>
        monitor t = (if start_marker P D log then True
                      else if end_marker P D log then False else monitor s) \<and>
        fl = (if end_marker P D log then Break else Continue)"
  proof (cases rule: loop_body_cases [where P = P and D = D and log = log and s = s])
    case start
    with assms end_not_start [of P D log] show ?thesis
      by (auto simp: loop_body_start)
  next
    case stop
    with assms show ?thesis by (auto simp: loop_body_end)
  next
    case skip
    with assms show ?thesis by (auto simp: loop_body_skip)
  next
    case call
    then have "\<not> start_marker P D log" "\<not> end_marker P D log"
      by (simp_all add: start_marker_def end_marker_def)
    with call assms show ?thesis by (auto simp: loop_body_call)
  next
    case plain
    then have no: "\<not> start_marker P D log" "\<not> end_marker P D log"
      by (simp_all add: start_marker_def end_marker_def)
    from plain assms obtain s' where run: "return_loop log 0 (s\<lparr>gas_sum := gas_sum s + gasCost log\<rparr>) = Inr s'"
      and t: "t = s'" "fl = Continue"
      by (cases "return_loop log 0 (s\<lparr>gas_sum := gas_sum s + gasCost log\<rparr>)")
         (auto simp: loop_body_plain)
    from return_loop_fields [OF run] no t show ?thesis by simp
  qed
  then show "gas_start t = (if start_marker P D log then gas log else gas_start s)"
    and "gas_end t = (if end_marker P D log then gas log else gas_end s)"
    and "monitor t = (if start_marker P D log then True
                      else if end_marker P D log then False else monitor s)"
    and "fl = (if end_marker P D log then Break else Continue)"
    by simp_all
qed

lemma loop_body_call_stack:
  assumes "loop_body P D s log = Inr (fl, s')"
  shows "map_of (call_stack s') k = map_of (call_stack s) k \<or>
         (monitor s \<and> depth log = D + 1 \<and> op log \<in> set stack_increasers \<and>
          k = (pc log, depth log) \<and>
          map_of (call_stack s') k =
            Some \<lparr>call_pc = pc log, call_depth = depth log, gas_at_call = gas log,
                  call_op = op log, gas_used = None, return_pc = None,
                  return_depth = None\<rparr>) \<or>
         (monitor s \<and> depth log = D + 1 \<and> op log \<notin> set stack_increasers \<and>
          pc log = fst k + 1 \<and> k \<in> set (active_calls s) \<and>
          map_of (call_stack s') k = map_option (finalize log) (map_of (call_stack s) k))"
proof (cases rule: loop_body_cases [where P = P and D = D and log = log and s = s])
  case start
  with assms show ?thesis by (auto simp: loop_body_start)
next
  case stop
  with assms show ?thesis by (auto simp: loop_body_end)
next
  case skip
  with assms show ?thesis by (auto simp: loop_body_skip)
next
  case call
  with assms have "call_stack s' =
      AList.update (pc log, depth log)
        \<lparr>call_pc = pc log, call_depth = depth log, gas_at_call = gas log,
         call_op = op log, gas_used = None, return_pc = None, return_depth = None\<rparr>
        (call_stack s)"
    by (auto simp: loop_body_call)
  with call show ?thesis by (simp add: update_conv')
next
  case plain
  with assms obtain t where run: "return_loop log 0 (s\<lparr>gas_sum := gas_sum s + gasCost log\<rparr>) = Inr t"
    and t: "s' = t"
    by (cases "return_loop log 0 (s\<lparr>gas_sum := gas_sum s + gasCost log\<rparr>)")
       (auto simp: loop_body_plain)
  from return_loop_entry [OF run, of k] plain t show ?thesis by auto
qed

lemma loop_body_distinct_active:
  assumes "loop_body P D s log = Inr (fl, s')" and "distinct (active_calls s)"
  shows "distinct (active_calls s') \<longleftrightarrow> \<not> reopens_active_key D s log"
proof (cases rule: loop_body_cases [where P = P and D = D and log = log and s = s])
  case start
  then have "depth log \<noteq> D + 1" by (simp add: start_marker_def)
  with start assms show ?thesis by (auto simp: loop_body_start reopens_active_key_def)
next
  case stop
  then have "depth log \<noteq> D + 1" by (simp add: end_marker_def)
  with stop assms show ?thesis by (auto simp: loop_body_end reopens_active_key_def)
next
  case skip
  with assms show ?thesis by (auto simp: loop_body_skip reopens_active_key_def)
next
  case call
  with assms show ?thesis by (auto simp: loop_body_call reopens_active_key_def)
next
  case plain
  with assms obtain u where run: "return_loop log 0 (s\<lparr>gas_sum := gas_sum s + gasCost log\<rparr>) = Inr u"
    and u: "s' = u"
    by (cases "return_loop log 0 (s\<lparr>gas_sum := gas_sum s + gasCost log\<rparr>)")
       (auto simp: loop_body_plain)
  from return_loop_distinct_active [OF run] assms(2) u have "distinct (active_calls s')"
    by simp
  with plain show ?thesis by (simp add: reopens_active_key_def)
qed

lemma frames_ok_fields [simp]:
  "frames_ok d (s\<lparr>monitor := m\<rparr>) = frames_ok d s"
  "frames_ok d (s\<lparr>gas_start := g\<rparr>) = frames_ok d s"
  "frames_ok d (s\<lparr>gas_end := g\<rparr>) = frames_ok d s"
  "frames_ok d (s\<lparr>gas_sum := g\<rparr>) = frames_ok d s"
  by (simp_all add: frames_ok_def)

lemma frames_ok_call:
  assumes "frames_ok d s" and "snd k = d + 1"
  shows "frames_ok d (s\<lparr>call_stack := AList.update k v (call_stack s),
                         active_calls := active_calls s @ [k]\<rparr>)"
  using assms by (auto simp: frames_ok_def distinct_update dom_update list_all_iff)

lemma loop_body_frames_ok:
  assumes "frames_ok D s"
  shows "\<exists>fl s'. loop_body P D s log = Inr (fl, s') \<and> frames_ok D s'"
proof (cases rule: loop_body_cases [where P = P and D = D and log = log and s = s])
  case start
  with assms show ?thesis by (simp add: loop_body_start)
next
  case stop
  with assms show ?thesis by (simp add: loop_body_end)
next
  case skip
  with assms show ?thesis by (simp add: loop_body_skip)
next
  case call
  with assms show ?thesis by (simp add: loop_body_call frames_ok_call)
next
  case plain
  let ?t = "s\<lparr>gas_sum := gas_sum s + gasCost log\<rparr>"
  from assms have ok: "frames_ok D ?t" by simp
  then have "set (active_calls ?t) \<subseteq> fst ` set (call_stack ?t)"
    by (simp add: frames_ok_def)
  from return_loop_returns [OF this] obtain s' where run: "return_loop log 0 ?t = Inr s'"
    by blast
  from return_loop_frames_ok [OF run ok] run plain show ?thesis
    by (simp add: loop_body_plain)
qed

subsection \<open>The scan\<close>

lemma scan_Cons_Continue:
  "loop_body P D s log = Inr (Continue, t) \<Longrightarrow> scan P D s (log # logs) = scan P D t logs"
  by simp

lemma scan_Cons_Break:
  "loop_body P D s log = Inr (Break, t) \<Longrightarrow> scan P D s (log # logs) = Inr t"
  by simp

lemma frames_ok_initial: "frames_ok D initial_state"
  by (simp add: frames_ok_def initial_state_def)

lemma scan_frames_ok:
  "frames_ok D s \<Longrightarrow> \<exists>s'. scan P D s logs = Inr s' \<and> frames_ok D s'"
proof (induction logs arbitrary: s)
  case Nil
  then show ?case by simp
next
  case (Cons log logs)
  from loop_body_frames_ok [OF Cons.prems] obtain fl t
    where step: "loop_body P D s log = Inr (fl, t)" and ok: "frames_ok D t"
    by blast
  show ?case
  proof (cases fl)
    case Continue
    with step Cons.IH [OF ok] show ?thesis by simp
  next
    case Break
    with step ok show ?thesis by simp
  qed
qed

lemma scan_returns: "\<exists>s. scan P D initial_state logs = Inr s \<and> frames_ok D s"
  by (rule scan_frames_ok [OF frames_ok_initial])

lemma frame_table_keys_unique:
  "\<exists>s. scan start_pc mdepth initial_state logs = Inr s \<and>
       distinct (map fst (call_stack s)) \<and>
       set (active_calls s) \<subseteq> fst ` set (call_stack s)"
  using scan_returns [of start_pc mdepth logs] by (auto simp: frames_ok_def)

lemma parse_struct_logs_scan:
  "scan P D initial_state logs = Inr s \<Longrightarrow>
     parse_struct_logs P D logs =
       Inr \<lparr>res_gas_sum = add_completed (gas_sum s) (call_stack s),
            res_gas_start = gas_start s, res_gas_end = gas_end s,
            res_call_stack = call_stack s\<rparr>"
  by (simp add: parse_struct_logs_def)

lemma scan_stops_at_end_marker:
  "end_marker P D m \<Longrightarrow> scan P D s (xs @ m # ys) = scan P D s (xs @ [m])"
proof (induction xs arbitrary: s)
  case Nil
  then show ?case by (simp add: loop_body_end)
next
  case (Cons x xs)
  show ?case
  proof (cases "loop_body P D s x")
    case (Inl e)
    then show ?thesis by simp
  next
    case (Inr r)
    obtain fl t where "r = (fl, t)" by (cases r)
    with Inr Cons.IH [OF Cons.prems, of t] show ?thesis by (cases fl) simp_all
  qed
qed

lemma scan_idle:
  assumes "\<not> monitor s" and "\<forall>l \<in> set logs. \<not> start_marker P D l"
  shows "scan P D s logs =
           Inr (case find (end_marker P D) logs of
                  None \<Rightarrow> s
                | Some m \<Rightarrow> s\<lparr>monitor := False, gas_end := gas m\<rparr>)"
  using assms
proof (induction logs)
  case Nil
  then show ?case by simp
next
  case (Cons log logs)
  then have no: "\<not> start_marker P D log" by simp
  show ?case
  proof (cases "end_marker P D log")
    case True
    then show ?thesis by (simp add: loop_body_end)
  next
    case False
    with no Cons.prems(1) have "loop_body P D s log = Inr (Continue, s)"
      by (simp add: loop_body_idle)
    with False Cons show ?thesis by simp
  qed
qed

lemma scan_gas_start:
  assumes "scan P D s logs = Inr s'"
  shows "gas_start s' =
           (case filter (start_marker P D) (takeWhile (\<lambda>l. \<not> end_marker P D l) logs) of
              [] \<Rightarrow> gas_start s
            | m # ms \<Rightarrow> gas (last (m # ms)))"
  using assms
proof (induction logs arbitrary: s)
  case Nil
  then show ?case by simp
next
  case (Cons log logs)
  from Cons.prems obtain fl t where step: "loop_body P D s log = Inr (fl, t)"
    by (cases "loop_body P D s log") auto
  note f = loop_body_window_fields [OF step]
  show ?case
  proof (cases "end_marker P D log")
    case True
    with f(4) step Cons.prems have "s' = t" by simp
    with f(1) True end_not_start [OF True] show ?thesis by simp
  next
    case False
    with f(4) step Cons.prems have run: "scan P D t logs = Inr s'" by simp
    from Cons.IH [OF run] f(1) False show ?thesis
      by (simp split: list.splits)
  qed
qed

lemma scan_without_end:
  assumes "scan P D s logs = Inr s'" and "\<forall>l \<in> set logs. \<not> end_marker P D l"
  shows "gas_end s' = gas_end s \<and>
         monitor s' = (monitor s \<or> (\<exists>l \<in> set logs. start_marker P D l))"
  using assms
proof (induction logs arbitrary: s)
  case Nil
  then show ?case by simp
next
  case (Cons log logs)
  from Cons.prems(1) obtain fl t where step: "loop_body P D s log = Inr (fl, t)"
    by (cases "loop_body P D s log") auto
  note f = loop_body_window_fields [OF step]
  from Cons.prems(2) have no: "\<not> end_marker P D log" by simp
  with f(4) step Cons.prems(1) have run: "scan P D t logs = Inr s'" by simp
  from Cons.prems(2) have rest: "\<forall>l \<in> set logs. \<not> end_marker P D l" by simp
  from Cons.IH [OF run rest] f(2,3) no show ?case by auto
qed


lemma scan_distinct_active:
  assumes "frames_ok D s0" and "distinct (active_calls s0)"
    and "\<forall>pre log rest s. logs = pre @ log # rest \<and> scan P D s0 pre = Inr s \<longrightarrow>
           \<not> reopens_active_key D s log"
  shows "\<exists>s'. scan P D s0 logs = Inr s' \<and> distinct (active_calls s')"
  using assms
proof (induction logs arbitrary: s0)
  case Nil
  then show ?case by simp
next
  case (Cons log logs)
  from loop_body_frames_ok [OF Cons.prems(1)] obtain fl t
    where step: "loop_body P D s0 log = Inr (fl, t)" and ok: "frames_ok D t"
    by blast
  have "log # logs = [] @ log # logs \<and> scan P D s0 [] = Inr s0" by simp
  with Cons.prems(3) have "\<not> reopens_active_key D s0 log" by blast
  with loop_body_distinct_active [OF step Cons.prems(2)] have dist: "distinct (active_calls t)"
    by simp
  show ?case
  proof (cases fl)
    case Break
    with step dist show ?thesis by simp
  next
    case Continue
    have "\<forall>pre l rest s. logs = pre @ l # rest \<and> scan P D t pre = Inr s \<longrightarrow>
            \<not> reopens_active_key D s l"
    proof (intro allI impI)
      fix pre l rest s
      assume a: "logs = pre @ l # rest \<and> scan P D t pre = Inr s"
      with step Continue have "log # logs = (log # pre) @ l # rest \<and>
          scan P D s0 (log # pre) = Inr s"
        by simp
      with Cons.prems(3) show "\<not> reopens_active_key D s l" by blast
    qed
    from Cons.IH [OF ok dist this] step Continue show ?thesis by simp
  qed
qed

subsection \<open>The running sum\<close>

text \<open>
  What the running sum holds at the end of a scan, and what the returned \<open>gas_sum\<close> is:
  the costs of the steps of the window one level below that are no call-family steps,
  plus the \<open>gas_used\<close> of the descriptors that the returned frame table holds.
\<close>

lemma add_completed_eq: "add_completed acc frames = acc + finalized_gas frames"
  by (induction frames arbitrary: acc) (simp_all add: finalized_gas_def split: option.splits)

lemma loop_body_gas_sum:
  assumes "loop_body P D s log = Inr (fl, t)"
  shows "gas_sum t =
           gas_sum s +
           (if monitor s \<and> depth log = D + 1 \<and> op log \<notin> set stack_increasers
            then gasCost log else 0)"
proof (cases rule: loop_body_cases [where P = P and D = D and log = log and s = s])
  case start
  with assms show ?thesis by (auto simp: loop_body_start start_marker_def)
next
  case stop
  with assms show ?thesis by (auto simp: loop_body_end end_marker_def)
next
  case skip
  with assms show ?thesis by (auto simp: loop_body_skip)
next
  case call
  with assms show ?thesis by (auto simp: loop_body_call)
next
  case plain
  with assms obtain u where run: "return_loop log 0 (s\<lparr>gas_sum := gas_sum s + gasCost log\<rparr>) = Inr u"
    and t: "t = u"
    by (cases "return_loop log 0 (s\<lparr>gas_sum := gas_sum s + gasCost log\<rparr>)")
       (auto simp: loop_body_plain)
  from return_loop_fields [OF run] t plain show ?thesis by simp
qed

lemma monitored_steps_Cons:
  "monitored_steps P D (log # logs) =
     (if end_marker P D log then []
      else if start_marker P D log then log # takeWhile (\<lambda>l. \<not> end_marker P D l) logs
      else monitored_steps P D logs)"
  by (simp add: monitored_steps_def)

lemma scan_gas_sum:
  assumes "scan P D s logs = Inr s'"
  shows "gas_sum s' =
           gas_sum s +
           plain_gas (filter (\<lambda>l. depth l = D + 1)
             (if monitor s then takeWhile (\<lambda>l. \<not> end_marker P D l) logs
              else monitored_steps P D logs))"
  using assms
proof (induction logs arbitrary: s)
  case Nil
  then show ?case by (simp add: plain_gas_def monitored_steps_def)
next
  case (Cons log logs)
  from Cons.prems obtain fl t where step: "loop_body P D s log = Inr (fl, t)"
    by (cases "loop_body P D s log") auto
  note f = loop_body_window_fields [OF step]
  note g = loop_body_gas_sum [OF step]
  show ?case
  proof (cases "end_marker P D log")
    case True
    with f(4) step Cons.prems have "s' = t" by simp
    moreover from True have "depth log \<noteq> D + 1" by (simp add: end_marker_def)
    ultimately show ?thesis using g True
      by (simp add: plain_gas_def monitored_steps_Cons)
  next
    case no_end: False
    with f(4) step Cons.prems have run: "scan P D t logs = Inr s'" by simp
    note IH = Cons.IH [OF run]
    show ?thesis
    proof (cases "start_marker P D log")
      case True
      then have "depth log \<noteq> D + 1" by (simp add: start_marker_def)
      with IH f(3) g True no_end show ?thesis
        by (simp add: plain_gas_def monitored_steps_Cons)
    next
      case False
      with IH f(3) g no_end show ?thesis
        by (simp add: plain_gas_def monitored_steps_Cons)
    qed
  qed
qed

lemma execution_gas_decomposition:
  "\<exists>r. parse_struct_logs start_pc mdepth logs = Inr r \<and>
        res_gas_sum r =
          plain_gas (child_steps start_pc mdepth logs) + finalized_gas (res_call_stack r)"
proof -
  from scan_returns obtain s where s: "scan start_pc mdepth initial_state logs = Inr s"
    by blast
  from scan_gas_sum [OF s]
  have "gas_sum s = plain_gas (child_steps start_pc mdepth logs)"
    by (simp add: initial_state_def child_steps_def)
  with parse_struct_logs_scan [OF s] show ?thesis
    by (simp add: add_completed_eq)
qed

text \<open>
The equations that run the model on a concrete trace.
\<close>

lemmas run_simps =
  parse_struct_logs_def loop_body_def initial_state_def stack_increasers_def
  return_loop.simps finalize_def

section \<open>Properties\<close>

subsection \<open>The worked scenario\<close>

text \<open>
  C2. The five-step trace of the specification, analysed with \<open>start_pc = 10\<close> and
  \<open>depth = 1\<close>: the result has \<open>gas_sum = 40\<close>, \<open>gas_start = 500\<close>, \<open>gas_end = 440\<close> and exactly
  one frame, keyed \<open>(21, 2)\<close> and finalized with \<open>gas_used = 37\<close>; the report's total gas
  used is 60 and its non-execution gas is 20. The claim gives the two marker steps no
  \<open>gasCost\<close>; the code never reads it there, so the result holds for any values.
\<close>

theorem worked_scenario:
  "parse_struct_logs 10 1
     [\<lparr>pc = 10, depth = 1, op = ''JUMPDEST'', gas = 500, gasCost = c1\<rparr>,
      \<lparr>pc = 20, depth = 2, op = ''ADD'', gas = 490, gasCost = 3\<rparr>,
      \<lparr>pc = 21, depth = 2, op = ''CALL'', gas = 487, gasCost = 0\<rparr>,
      \<lparr>pc = 22, depth = 2, op = ''STOP'', gas = 450, gasCost = 0\<rparr>,
      \<lparr>pc = 11, depth = 1, op = ''JUMPDEST'', gas = 440, gasCost = c5\<rparr>]
   = Inr \<lparr>res_gas_sum = 40, res_gas_start = 500, res_gas_end = 440,
          res_call_stack =
            [((21, 2),
              \<lparr>call_pc = 21, call_depth = 2, gas_at_call = 487, call_op = ''CALL'',
               gas_used = Some 37, return_pc = Some 22, return_depth = Some 2\<rparr>)]\<rparr>
   \<and> gas_total \<lparr>res_gas_sum = 40, res_gas_start = 500, res_gas_end = 440,
          res_call_stack =
            [((21, 2),
              \<lparr>call_pc = 21, call_depth = 2, gas_at_call = 487, call_op = ''CALL'',
               gas_used = Some 37, return_pc = Some 22, return_depth = Some 2\<rparr>)]\<rparr> = 60
   \<and> non_execution_gas \<lparr>res_gas_sum = 40, res_gas_start = 500, res_gas_end = 440,
          res_call_stack =
            [((21, 2),
              \<lparr>call_pc = 21, call_depth = 2, gas_at_call = 487, call_op = ''CALL'',
               gas_used = Some 37, return_pc = Some 22, return_depth = Some 2\<rparr>)]\<rparr> = 20"
  by (simp add: parse_struct_logs_def loop_body_def initial_state_def stack_increasers_def
      return_loop.simps finalize_def gas_total_def non_execution_gas_def)

subsection \<open>The window markers\<close>

text \<open>
  C3, as the claim states it, fails: the test for the closing marker is not guarded by
  \<open>monitor\<close>, so a step at \<open>(start_pc + 1, depth)\<close> ends the scan and sets \<open>gas_end\<close> also when
  the window never opened. Here the trace is that single step, and \<open>gas_end\<close> is 440, not 0.
\<close>

theorem closing_marker_before_start_counterexample:
  "parse_struct_logs 10 1 [\<lparr>pc = 11, depth = 1, op = ''JUMPDEST'', gas = 440, gasCost = 1\<rparr>]
     = Inr \<lparr>res_gas_sum = 0, res_gas_start = 0, res_gas_end = 440, res_call_stack = []\<rparr>
   \<and> parse_struct_logs 10 1 [\<lparr>pc = 11, depth = 1, op = ''JUMPDEST'', gas = 440, gasCost = 1\<rparr>]
     \<noteq> Inr \<lparr>res_gas_sum = 0, res_gas_start = 0, res_gas_end = 0, res_call_stack = []\<rparr>"
  by (simp add: run_simps)

text \<open>
  C3, amended. For every trace with no step at \<open>(start_pc, depth)\<close> the analysis raises no
  error and returns \<open>gas_sum = 0\<close>, \<open>gas_start = 0\<close> and an empty frame set; \<open>gas_end\<close> is 0 when
  the trace has no step at \<open>(start_pc + 1, depth)\<close> either, and otherwise the remaining gas
  of the first such step.
\<close>

theorem window_never_opens:
  assumes "\<forall>l \<in> set logs. \<not> (pc l = start_pc \<and> depth l = mdepth)"
  shows "parse_struct_logs start_pc mdepth logs =
           Inr \<lparr>res_gas_sum = 0, res_gas_start = 0,
                res_gas_end =
                  (case find (\<lambda>l. pc l = start_pc + 1 \<and> depth l = mdepth) logs of
                     None \<Rightarrow> 0
                   | Some m \<Rightarrow> gas m),
                res_call_stack = []\<rparr>"
proof -
  have em: "end_marker start_pc mdepth = (\<lambda>l. pc l = start_pc + 1 \<and> depth l = mdepth)"
    by (rule ext) (simp add: end_marker_def)
  from assms have "\<forall>l \<in> set logs. \<not> start_marker start_pc mdepth l"
    by (simp add: start_marker_def)
  with scan_idle [of initial_state logs start_pc mdepth]
  have "scan start_pc mdepth initial_state logs =
          Inr (case find (end_marker start_pc mdepth) logs of
                 None \<Rightarrow> initial_state
               | Some m \<Rightarrow> initial_state\<lparr>monitor := False, gas_end := gas m\<rparr>)"
    by (simp add: initial_state_def)
  then show ?thesis
    unfolding em by (simp add: parse_struct_logs_def initial_state_def split: option.splits)
qed

theorem window_never_opens_witness:
  "list_all (\<lambda>l. \<not> (pc l = 10 \<and> depth l = 1))
     [\<lparr>pc = 20, depth = 2, op = ''CALL'', gas = 490, gasCost = 3\<rparr>,
      \<lparr>pc = 21, depth = 2, op = ''ADD'', gas = 480, gasCost = 3\<rparr>,
      \<lparr>pc = 11, depth = 1, op = ''JUMPDEST'', gas = 440, gasCost = 1\<rparr>,
      \<lparr>pc = 11, depth = 1, op = ''JUMPDEST'', gas = 300, gasCost = 1\<rparr>]
   \<and> parse_struct_logs 10 1
     [\<lparr>pc = 20, depth = 2, op = ''CALL'', gas = 490, gasCost = 3\<rparr>,
      \<lparr>pc = 21, depth = 2, op = ''ADD'', gas = 480, gasCost = 3\<rparr>,
      \<lparr>pc = 11, depth = 1, op = ''JUMPDEST'', gas = 440, gasCost = 1\<rparr>,
      \<lparr>pc = 11, depth = 1, op = ''JUMPDEST'', gas = 300, gasCost = 1\<rparr>]
     = Inr \<lparr>res_gas_sum = 0, res_gas_start = 0, res_gas_end = 440, res_call_stack = []\<rparr>"
  using window_never_opens [of
     "[\<lparr>pc = 20, depth = 2, op = ''CALL'', gas = 490, gasCost = 3\<rparr>,
      \<lparr>pc = 21, depth = 2, op = ''ADD'', gas = 480, gasCost = 3\<rparr>,
      \<lparr>pc = 11, depth = 1, op = ''JUMPDEST'', gas = 440, gasCost = 1\<rparr>,
      \<lparr>pc = 11, depth = 1, op = ''JUMPDEST'', gas = 300, gasCost = 1\<rparr>]" 10 1]
  by simp

text \<open>
  C4, as the claim states it, fails: every step at \<open>(start_pc, depth)\<close> that the scan
  reaches assigns \<open>gas_start\<close> again. Here the first such step has 500 gas left and the
  second 400, and the result reports 400.
\<close>

theorem gas_start_overwritten_counterexample:
  "parse_struct_logs 10 1
     [\<lparr>pc = 10, depth = 1, op = ''JUMPDEST'', gas = 500, gasCost = 1\<rparr>,
      \<lparr>pc = 10, depth = 1, op = ''JUMPDEST'', gas = 400, gasCost = 1\<rparr>,
      \<lparr>pc = 11, depth = 1, op = ''JUMPDEST'', gas = 300, gasCost = 1\<rparr>]
     = Inr \<lparr>res_gas_sum = 0, res_gas_start = 400, res_gas_end = 300, res_call_stack = []\<rparr>
   \<and> map_option gas (find (\<lambda>l. pc l = 10 \<and> depth l = 1)
     [\<lparr>pc = 10, depth = 1, op = ''JUMPDEST'', gas = 500, gasCost = 1\<rparr>,
      \<lparr>pc = 10, depth = 1, op = ''JUMPDEST'', gas = 400, gasCost = 1\<rparr>,
      \<lparr>pc = 11, depth = 1, op = ''JUMPDEST'', gas = 300, gasCost = 1\<rparr>]) = Some 500"
  by (simp add: run_simps)

text \<open>
  C4, amended. The analysis returns, and \<open>gas_start\<close> is the remaining gas of the last step
  at \<open>(start_pc, depth)\<close> among the steps before the first step at \<open>(start_pc + 1, depth)\<close>;
  it is 0 when there is no such step.
\<close>

theorem gas_start_is_last_start_marker:
  "\<exists>r. parse_struct_logs start_pc mdepth logs = Inr r \<and>
        res_gas_start r =
          (case filter (\<lambda>l. pc l = start_pc \<and> depth l = mdepth)
                  (takeWhile (\<lambda>l. \<not> (pc l = start_pc + 1 \<and> depth l = mdepth)) logs) of
             [] \<Rightarrow> 0
           | m # ms \<Rightarrow> gas (last (m # ms)))"
proof -
  have sm: "start_marker start_pc mdepth = (\<lambda>l. pc l = start_pc \<and> depth l = mdepth)"
    and em: "end_marker start_pc mdepth = (\<lambda>l. pc l = start_pc + 1 \<and> depth l = mdepth)"
    by (rule ext, simp add: start_marker_def end_marker_def)+
  from scan_returns obtain s where s: "scan start_pc mdepth initial_state logs = Inr s"
    by blast
  have "gas_start initial_state = 0" by (simp add: initial_state_def)
  with scan_gas_start [OF s]
  have "gas_start s =
          (case filter (start_marker start_pc mdepth)
                  (takeWhile (\<lambda>l. \<not> end_marker start_pc mdepth l) logs) of
             [] \<Rightarrow> 0
           | m # ms \<Rightarrow> gas (last (m # ms)))"
    by (simp split: list.splits)
  with parse_struct_logs_scan [OF s] show ?thesis
    unfolding sm em by simp
qed

text \<open>
  C5, as the claim states it, fails: a step at \<open>(start_pc + 1, depth)\<close> that precedes the
  start marker ends the scan before the window opens. In the trace below a step at
  \<open>(10, 1)\<close> is there and no step after it is at \<open>(11, 1)\<close>, yet the scan stops at the first
  step: \<open>gas_end\<close> is 440, not 0, and \<open>gas_start\<close> stays 0.
\<close>

theorem closing_marker_precedes_window_counterexample:
  "parse_struct_logs 10 1
     [\<lparr>pc = 11, depth = 1, op = ''POP'', gas = 440, gasCost = 2\<rparr>,
      \<lparr>pc = 10, depth = 1, op = ''CALL'', gas = 500, gasCost = 100\<rparr>,
      \<lparr>pc = 20, depth = 2, op = ''ADD'', gas = 490, gasCost = 3\<rparr>]
     = Inr \<lparr>res_gas_sum = 0, res_gas_start = 0, res_gas_end = 440, res_call_stack = []\<rparr>
   \<and> dropWhile (\<lambda>l. \<not> (pc l = 10 \<and> depth l = 1))
     [\<lparr>pc = 11, depth = 1, op = ''POP'', gas = 440, gasCost = 2\<rparr>,
      \<lparr>pc = 10, depth = 1, op = ''CALL'', gas = 500, gasCost = 100\<rparr>,
      \<lparr>pc = 20, depth = 2, op = ''ADD'', gas = 490, gasCost = 3\<rparr>]
     = [\<lparr>pc = 10, depth = 1, op = ''CALL'', gas = 500, gasCost = 100\<rparr>,
        \<lparr>pc = 20, depth = 2, op = ''ADD'', gas = 490, gasCost = 3\<rparr>]
   \<and> list_all (\<lambda>l. \<not> (pc l = 10 + 1 \<and> depth l = 1))
     [\<lparr>pc = 20, depth = 2, op = ''ADD'', gas = 490, gasCost = 3\<rparr>]"
  by (simp add: run_simps)

text \<open>
  C5, amended. Let the scan reach a step \<open>m\<close> at \<open>(start_pc, depth)\<close>, that is, no step before
  \<open>m\<close> is at \<open>(start_pc + 1, depth)\<close>, and let no step after \<open>m\<close> be there either. Then the scan
  runs through the whole trace (it ends with \<open>monitor\<close> still on, which a \<^verbatim>\<open>break\<close> would
  have turned off), \<open>gas_end\<close> keeps its default 0 and the total gas used is
  \<open>gas_start - 0\<close>.
\<close>

theorem unterminated_window:
  assumes "pc m = start_pc \<and> depth m = mdepth"
    and "\<forall>l \<in> set xs. \<not> (pc l = start_pc + 1 \<and> depth l = mdepth)"
    and "\<forall>l \<in> set ys. \<not> (pc l = start_pc + 1 \<and> depth l = mdepth)"
  shows "\<exists>s r. scan start_pc mdepth initial_state (xs @ m # ys) = Inr s \<and> monitor s \<and>
           parse_struct_logs start_pc mdepth (xs @ m # ys) = Inr r \<and>
           res_gas_end r = 0 \<and> gas_total r = res_gas_start r - 0"
proof -
  from scan_returns obtain s
    where s: "scan start_pc mdepth initial_state (xs @ m # ys) = Inr s"
    by blast
  from assms have no_end: "\<forall>l \<in> set (xs @ m # ys). \<not> end_marker start_pc mdepth l"
    by (auto simp: end_marker_def)
  from assms(1) have "\<exists>l \<in> set (xs @ m # ys). start_marker start_pc mdepth l"
    by (auto simp: start_marker_def)
  with scan_without_end [OF s no_end] have "gas_end s = 0" "monitor s"
    by (simp_all add: initial_state_def)
  with s parse_struct_logs_scan [OF s] show ?thesis
    by (simp add: gas_total_def)
qed

theorem unterminated_window_witness:
  "\<exists>s r. scan 10 1 initial_state
            ([\<lparr>pc = 5, depth = 1, op = ''PUSH1'', gas = 510, gasCost = 3\<rparr>]
             @ \<lparr>pc = 10, depth = 1, op = ''JUMPDEST'', gas = 500, gasCost = 1\<rparr>
             # [\<lparr>pc = 20, depth = 2, op = ''ADD'', gas = 490, gasCost = 3\<rparr>]) = Inr s \<and> monitor s \<and>
          parse_struct_logs 10 1
            ([\<lparr>pc = 5, depth = 1, op = ''PUSH1'', gas = 510, gasCost = 3\<rparr>]
             @ \<lparr>pc = 10, depth = 1, op = ''JUMPDEST'', gas = 500, gasCost = 1\<rparr>
             # [\<lparr>pc = 20, depth = 2, op = ''ADD'', gas = 490, gasCost = 3\<rparr>]) = Inr r \<and>
          res_gas_end r = 0 \<and> gas_total r = res_gas_start r - 0"
  using unterminated_window [of "\<lparr>pc = 10, depth = 1, op = ''JUMPDEST'', gas = 500, gasCost = 1\<rparr>"
      10 1 "[\<lparr>pc = 5, depth = 1, op = ''PUSH1'', gas = 510, gasCost = 3\<rparr>]"
      "[\<lparr>pc = 20, depth = 2, op = ''ADD'', gas = 490, gasCost = 3\<rparr>]"]
  by simp

text \<open>
  C8. A step \<open>m\<close> at \<open>(start_pc + 1, depth)\<close> ends the scan: whatever steps \<open>ys\<close> follow it,
  the result (or the error) is the one of the trace cut after \<open>m\<close>. This holds for every
  such step, so in particular for the first one met while monitoring.
\<close>

theorem closing_marker_ends_scan:
  assumes "pc m = start_pc + 1 \<and> depth m = mdepth"
  shows "parse_struct_logs start_pc mdepth (xs @ m # ys) =
         parse_struct_logs start_pc mdepth (xs @ [m])"
proof -
  from assms have "end_marker start_pc mdepth m" by (simp add: end_marker_def)
  from scan_stops_at_end_marker [OF this, of initial_state xs ys] show ?thesis
    by (simp only: parse_struct_logs_def)
qed

theorem closing_marker_ends_scan_witness:
  "(pc \<lparr>pc = 11, depth = 1, op = ''JUMPDEST'', gas = 440, gasCost = 1\<rparr> = 10 + 1
      \<and> depth \<lparr>pc = 11, depth = 1, op = ''JUMPDEST'', gas = 440, gasCost = 1\<rparr> = 1)
   \<and> parse_struct_logs 10 1
        ([\<lparr>pc = 10, depth = 1, op = ''JUMPDEST'', gas = 500, gasCost = 1\<rparr>,
          \<lparr>pc = 20, depth = 2, op = ''ADD'', gas = 490, gasCost = 3\<rparr>]
         @ \<lparr>pc = 11, depth = 1, op = ''JUMPDEST'', gas = 440, gasCost = 1\<rparr>
         # [\<lparr>pc = 10, depth = 1, op = ''JUMPDEST'', gas = 400, gasCost = 1\<rparr>,
            \<lparr>pc = 30, depth = 2, op = ''MUL'', gas = 390, gasCost = 5\<rparr>,
            \<lparr>pc = 11, depth = 1, op = ''JUMPDEST'', gas = 380, gasCost = 1\<rparr>])
     = Inr \<lparr>res_gas_sum = 3, res_gas_start = 500, res_gas_end = 440, res_call_stack = []\<rparr>"
  using closing_marker_ends_scan [of "\<lparr>pc = 11, depth = 1, op = ''JUMPDEST'', gas = 440, gasCost = 1\<rparr>"
      10 1
      "[\<lparr>pc = 10, depth = 1, op = ''JUMPDEST'', gas = 500, gasCost = 1\<rparr>,
        \<lparr>pc = 20, depth = 2, op = ''ADD'', gas = 490, gasCost = 3\<rparr>]"
      "[\<lparr>pc = 10, depth = 1, op = ''JUMPDEST'', gas = 400, gasCost = 1\<rparr>,
        \<lparr>pc = 30, depth = 2, op = ''MUL'', gas = 390, gasCost = 5\<rparr>,
        \<lparr>pc = 11, depth = 1, op = ''JUMPDEST'', gas = 380, gasCost = 1\<rparr>]"]
  by (simp add: run_simps)

subsection \<open>Frames\<close>




text \<open>
  C7, as the claim states it, fails: nothing stops a call-family step at a key that is
  still active. Two \<^verbatim>\<open>CALL\<close> steps at \<open>(21, 2)\<close> with no return step between them leave the
  key twice in \<^verbatim>\<open>active_calls\<close>, and the second descriptor has overwritten the first,
  which was never resolved.
\<close>

theorem active_key_repeated_counterexample:
  "scan 10 1 initial_state
     [\<lparr>pc = 10, depth = 1, op = ''JUMPDEST'', gas = 500, gasCost = 1\<rparr>,
      \<lparr>pc = 21, depth = 2, op = ''CALL'', gas = 487, gasCost = 0\<rparr>,
      \<lparr>pc = 21, depth = 2, op = ''CALL'', gas = 480, gasCost = 0\<rparr>]
   = Inr \<lparr>call_stack =
            [((21, 2),
              \<lparr>call_pc = 21, call_depth = 2, gas_at_call = 480, call_op = ''CALL'',
               gas_used = None, return_pc = None, return_depth = None\<rparr>)],
          active_calls = [(21, 2), (21, 2)],
          gas_sum = 0, gas_start = 500, gas_end = 0, monitor = True\<rparr>"
  by (simp add: run_simps)

text \<open>
  C7, amended. If no call-family step arrives at a key that is still active, at any point
  of the scan, then each key occurs at most once in the active list. The condition is
  stated on the states the scan goes through: for every way to cut the trace into the
  steps \<open>pre\<close> scanned so far, the next step \<open>log\<close> and the rest, \<open>log\<close> is not pushed at a key
  that is active after \<open>pre\<close>. A trace cut short satisfies the condition with the trace, so
  the conclusion holds at every point of the scan. In the witness the call site at pc 21
  runs again after its first frame was resolved.
\<close>

theorem active_keys_distinct_unless_reopened:
  assumes "\<forall>pre log rest s.
             logs = pre @ log # rest \<and> scan start_pc mdepth initial_state pre = Inr s \<longrightarrow>
             \<not> reopens_active_key mdepth s log"
  shows "\<exists>s. scan start_pc mdepth initial_state logs = Inr s \<and> distinct (active_calls s)"
proof -
  have "distinct (active_calls initial_state)" by (simp add: initial_state_def)
  from scan_distinct_active [OF frames_ok_initial this assms] show ?thesis .
qed

theorem active_keys_distinct_unless_reopened_witness:
  "scan 10 1 initial_state
     [\<lparr>pc = 10, depth = 1, op = ''CALL'', gas = 500, gasCost = 100\<rparr>,
      \<lparr>pc = 21, depth = 2, op = ''CALL'', gas = 487, gasCost = 100\<rparr>,
      \<lparr>pc = 22, depth = 2, op = ''POP'', gas = 450, gasCost = 2\<rparr>,
      \<lparr>pc = 21, depth = 2, op = ''CALL'', gas = 400, gasCost = 100\<rparr>]
   = Inr \<lparr>call_stack =
            [((21, 2),
              \<lparr>call_pc = 21, call_depth = 2, gas_at_call = 400, call_op = ''CALL'',
               gas_used = None, return_pc = None, return_depth = None\<rparr>)],
          active_calls = [(21, 2)],
          gas_sum = 2, gas_start = 500, gas_end = 0, monitor = True\<rparr>
   \<and> (\<exists>s. scan 10 1 initial_state
     [\<lparr>pc = 10, depth = 1, op = ''CALL'', gas = 500, gasCost = 100\<rparr>,
      \<lparr>pc = 21, depth = 2, op = ''CALL'', gas = 487, gasCost = 100\<rparr>,
      \<lparr>pc = 22, depth = 2, op = ''POP'', gas = 450, gasCost = 2\<rparr>,
      \<lparr>pc = 21, depth = 2, op = ''CALL'', gas = 400, gasCost = 100\<rparr>]
     = Inr s \<and> distinct (active_calls s))"
proof -
  have "\<forall>pre log rest s.
          [\<lparr>pc = 10, depth = 1, op = ''CALL'', gas = 500, gasCost = 100\<rparr>,
      \<lparr>pc = 21, depth = 2, op = ''CALL'', gas = 487, gasCost = 100\<rparr>,
      \<lparr>pc = 22, depth = 2, op = ''POP'', gas = 450, gasCost = 2\<rparr>,
      \<lparr>pc = 21, depth = 2, op = ''CALL'', gas = 400, gasCost = 100\<rparr>] = pre @ log # rest \<and> scan 10 1 initial_state pre = Inr s \<longrightarrow>
          \<not> reopens_active_key 1 s log"
    by (auto simp: Cons_eq_append_conv run_simps reopens_active_key_def)
  from active_keys_distinct_unless_reopened [OF this] show ?thesis
    by (simp add: run_simps)
qed

text \<open>
  C9. One round of the loop, from any state \<open>s\<close>. While monitoring, a call-family step at
  depth \<open>depth + 1\<close> only opens a frame: the loop goes on, \<open>gas_sum\<close> is unchanged, the key is
  appended to the active list (no key leaves it), the descriptor at the step's own key
  is a fresh one without \<open>gas_used\<close>, and every other descriptor is untouched, also the one
  whose call pc is the step's pc minus one. And whenever a round turns a descriptor
  without \<open>gas_used\<close> into one with \<open>gas_used\<close>, its step is no call-family step, is at depth
  \<open>depth + 1\<close> and at the frame's call pc plus one, and the scan is monitoring.
\<close>

theorem call_step_finalizes_nothing:
  assumes "loop_body start_pc mdepth s log = Inr (fl, s')"
  shows "(monitor s \<and> depth log = mdepth + 1 \<and> op log \<in> set stack_increasers \<longrightarrow>
            fl = Continue \<and> gas_sum s' = gas_sum s \<and>
            active_calls s' = active_calls s @ [(pc log, depth log)] \<and>
            map_of (call_stack s') (pc log, depth log) =
              Some \<lparr>call_pc = pc log, call_depth = depth log, gas_at_call = gas log,
                    call_op = op log, gas_used = None, return_pc = None,
                    return_depth = None\<rparr> \<and>
            (\<forall>k. k \<noteq> (pc log, depth log) \<longrightarrow>
                 map_of (call_stack s') k = map_of (call_stack s) k)) \<and>
         (\<forall>k ci ci'. map_of (call_stack s) k = Some ci \<and> gas_used ci = None \<and>
                     map_of (call_stack s') k = Some ci' \<and> gas_used ci' \<noteq> None \<longrightarrow>
            op log \<notin> set stack_increasers \<and> depth log = mdepth + 1 \<and>
            pc log = fst k + 1 \<and> monitor s)"
proof (intro conjI impI allI)
  assume c: "monitor s \<and> depth log = mdepth + 1 \<and> op log \<in> set stack_increasers"
  with assms have s': "s' = s\<lparr>call_stack :=
             AList.update (pc log, depth log)
               \<lparr>call_pc = pc log, call_depth = depth log, gas_at_call = gas log,
                call_op = op log, gas_used = None, return_pc = None, return_depth = None\<rparr>
               (call_stack s),
           active_calls := active_calls s @ [(pc log, depth log)]\<rparr>"
    and fl: "fl = Continue"
    by (simp_all add: loop_body_call)
  show "fl = Continue" by (rule fl)
  show "gas_sum s' = gas_sum s" by (simp add: s')
  show "active_calls s' = active_calls s @ [(pc log, depth log)]" by (simp add: s')
  show "map_of (call_stack s') (pc log, depth log) =
          Some \<lparr>call_pc = pc log, call_depth = depth log, gas_at_call = gas log,
                call_op = op log, gas_used = None, return_pc = None, return_depth = None\<rparr>"
    by (simp add: s' update_conv')
  fix k :: call_key
  assume "k \<noteq> (pc log, depth log)"
  then show "map_of (call_stack s') k = map_of (call_stack s) k"
    by (simp add: s' update_conv')
next
  fix k ci ci'
  assume a: "map_of (call_stack s) k = Some ci \<and> gas_used ci = None \<and>
             map_of (call_stack s') k = Some ci' \<and> gas_used ci' \<noteq> None"
  from loop_body_call_stack [OF assms, of k] a
  have "monitor s \<and> depth log = mdepth + 1 \<and> op log \<notin> set stack_increasers \<and>
        pc log = fst k + 1"
    by auto
  then show "op log \<notin> set stack_increasers" "depth log = mdepth + 1"
    "pc log = fst k + 1" "monitor s"
    by simp_all
qed

theorem call_step_finalizes_nothing_witness:
  "loop_body 10 1
     \<lparr>call_stack = [((21, 2), \<lparr>call_pc = 21, call_depth = 2, gas_at_call = 487, call_op = ''CALL'', gas_used = None, return_pc = None, return_depth = None\<rparr>)],
       active_calls = [(21, 2)], gas_sum = 0, gas_start = 500, gas_end = 0, monitor = True\<rparr>
     \<lparr>pc = 22, depth = 2, op = ''STATICCALL'', gas = 480, gasCost = 100\<rparr>
   = Inr (Continue,
     \<lparr>call_stack = [((21, 2), \<lparr>call_pc = 21, call_depth = 2, gas_at_call = 487, call_op = ''CALL'', gas_used = None, return_pc = None, return_depth = None\<rparr>),
         ((22, 2), \<lparr>call_pc = 22, call_depth = 2, gas_at_call = 480, call_op = ''STATICCALL'', gas_used = None, return_pc = None, return_depth = None\<rparr>)],
       active_calls = [(21, 2), (22, 2)], gas_sum = 0, gas_start = 500, gas_end = 0, monitor = True\<rparr>)
   \<and> map_of (call_stack
     \<lparr>call_stack = [((21, 2), \<lparr>call_pc = 21, call_depth = 2, gas_at_call = 487, call_op = ''CALL'', gas_used = None, return_pc = None, return_depth = None\<rparr>),
         ((22, 2), \<lparr>call_pc = 22, call_depth = 2, gas_at_call = 480, call_op = ''STATICCALL'', gas_used = None, return_pc = None, return_depth = None\<rparr>)],
       active_calls = [(21, 2), (22, 2)], gas_sum = 0, gas_start = 500, gas_end = 0, monitor = True\<rparr>) (21, 2)
     = Some \<lparr>call_pc = 21, call_depth = 2, gas_at_call = 487, call_op = ''CALL'', gas_used = None, return_pc = None, return_depth = None\<rparr>"
  using call_step_finalizes_nothing [of 10 1
     "\<lparr>call_stack = [((21, 2), \<lparr>call_pc = 21, call_depth = 2, gas_at_call = 487, call_op = ''CALL'', gas_used = None, return_pc = None, return_depth = None\<rparr>)],
       active_calls = [(21, 2)], gas_sum = 0, gas_start = 500, gas_end = 0, monitor = True\<rparr>"
     "\<lparr>pc = 22, depth = 2, op = ''STATICCALL'', gas = 480, gasCost = 100\<rparr>"
     Continue
     "\<lparr>call_stack = [((21, 2), \<lparr>call_pc = 21, call_depth = 2, gas_at_call = 487, call_op = ''CALL'', gas_used = None, return_pc = None, return_depth = None\<rparr>),
         ((22, 2), \<lparr>call_pc = 22, call_depth = 2, gas_at_call = 480, call_op = ''STATICCALL'', gas_used = None, return_pc = None, return_depth = None\<rparr>)],
       active_calls = [(21, 2), (22, 2)], gas_sum = 0, gas_start = 500, gas_end = 0, monitor = True\<rparr>"]
  by (simp add: run_simps)

subsection \<open>Execution gas\<close>

text \<open>
  C1 does not hold of the code. The frame table has one descriptor per key
  \<open>(pc, depth)\<close>, so a call site that runs again overwrites the descriptor of its earlier,
  completed frame, and the loop that adds the gas of completed calls no longer sees it.
  In the trace below the call at pc 21 runs twice inside the window; the first frame uses
  \<open>487 - 450 = 37\<close>, the second \<open>400 - 380 = 20\<close>, and the two other steps cost 2 each. The
  claim's sum is \<open>4 + 37 + 20 = 61\<close>; the code reports \<open>4 + 20 = 24\<close>.
\<close>

theorem reexecuted_call_site_gas_dropped:
  "parse_struct_logs 10 1
     [\<lparr>pc = 10, depth = 1, op = ''CALL'', gas = 500, gasCost = 100\<rparr>,
      \<lparr>pc = 21, depth = 2, op = ''CALL'', gas = 487, gasCost = 100\<rparr>,
      \<lparr>pc = 22, depth = 2, op = ''POP'', gas = 450, gasCost = 2\<rparr>,
      \<lparr>pc = 21, depth = 2, op = ''CALL'', gas = 400, gasCost = 100\<rparr>,
      \<lparr>pc = 22, depth = 2, op = ''POP'', gas = 380, gasCost = 2\<rparr>,
      \<lparr>pc = 11, depth = 1, op = ''POP'', gas = 300, gasCost = 2\<rparr>]
   = Inr \<lparr>res_gas_sum = 24, res_gas_start = 500, res_gas_end = 300,
          res_call_stack =
            [((21, 2),
              \<lparr>call_pc = 21, call_depth = 2, gas_at_call = 400, call_op = ''CALL'',
               gas_used = Some 20, return_pc = Some 22, return_depth = Some 2\<rparr>)]\<rparr>
   \<and> claimed_gas_sum 10 1
     [\<lparr>pc = 10, depth = 1, op = ''CALL'', gas = 500, gasCost = 100\<rparr>,
      \<lparr>pc = 21, depth = 2, op = ''CALL'', gas = 487, gasCost = 100\<rparr>,
      \<lparr>pc = 22, depth = 2, op = ''POP'', gas = 450, gasCost = 2\<rparr>,
      \<lparr>pc = 21, depth = 2, op = ''CALL'', gas = 400, gasCost = 100\<rparr>,
      \<lparr>pc = 22, depth = 2, op = ''POP'', gas = 380, gasCost = 2\<rparr>,
      \<lparr>pc = 11, depth = 1, op = ''POP'', gas = 300, gasCost = 2\<rparr>]
   = 61"
  by (simp add: run_simps claimed_gas_sum_def child_steps_def monitored_steps_def
      plain_gas_def start_marker_def end_marker_def)

subsection \<open>The trace source\<close>

text \<open>
  C10 does not hold of the code. The test \<^verbatim>\<open>'structLogs' in data['result']\<close> is made on
  whatever \<^verbatim>\<open>data['result']\<close> is. On \<^verbatim>\<open>null\<close> it raises \<^verbatim>\<open>TypeError\<close>: in the first document
  although \<^verbatim>\<open>data['structLogs']\<close> is present and should be returned, in the second, where
  neither field is present, in place of the \<^verbatim>\<open>KeyError\<close>.
\<close>

theorem container_check_raises_type_error:
  "get_struct_logs
     (JObject [(''result'', JNull), (''structLogs'', JArray [JObject [(''pc'', JNumber 0)]])])
   = Inl TypeError
   \<and> get_struct_logs
     (JObject [(''jsonrpc'', JString ''2.0''), (''id'', JNumber 1), (''result'', JNull)])
   = Inl TypeError"
  by (simp add: get_struct_logs_def has_result_struct_logs_def)

text \<open>
  On a document that is an object whose \<^verbatim>\<open>result\<close>, if there is one, is an object too, the
  function does return the nested field, else the direct one, else raises \<^verbatim>\<open>KeyError\<close>.
\<close>

lemma py_contains_object: "py_contains (JObject kvs) k = Inr (map_of kvs k \<noteq> None)"
  by (simp add: map_of_eq_None_iff)

lemma get_struct_logs_nested:
  assumes "map_of kvs ''result'' = Some (JObject r)" and "map_of r ''structLogs'' = Some v"
  shows "get_struct_logs (JObject kvs) = Inr v"
  using assms
  by (simp add: get_struct_logs_def has_result_struct_logs_def py_contains_object
      del: py_contains.simps)

lemma get_struct_logs_direct:
  assumes "map_of kvs ''result'' = None \<or>
           (\<exists>r. map_of kvs ''result'' = Some (JObject r) \<and> map_of r ''structLogs'' = None)"
  shows "get_struct_logs (JObject kvs) =
           (case map_of kvs ''structLogs'' of None \<Rightarrow> Inl KeyError | Some v \<Rightarrow> Inr v)"
  using assms
  by (auto simp: get_struct_logs_def has_result_struct_logs_def py_contains_object
      simp del: py_contains.simps split: option.splits)

end
